theory Spec2Isabelle
  imports
    Main
    "HOL-Library.Word"
    "HOL-Library.Char_ord"
    "HOL-Library.List_Lexorder"
    "HOL-Library.AList"
    "HOL-Library.Multiset"
begin

unbundle bit_operations_syntax

section \<open>The registry of precompiled programs\<close>

text \<open>
  The registry lives in the template of package \<open>precompiled\<close> (the second file of
  \<open>src/pkg/rand/rand_linux.go\<close>). It has two package-level variables:
  \<^item> \<open>precompiledPrograms\<close>, a Go map from program names to programs, initially \<open>nil\<close>;
  \<^item> \<open>registerPrecompiledProgramsOnce\<close>, a \<open>sync.Once\<close>.

  A Go map is modelled as an association list with distinct keys, kept distinct by
  \<open>AList.update\<close> (the assignment \<open>m[k] = v\<close>); the \<open>nil\<close> map is \<open>None\<close>. The
  \<open>sync.Once\<close> is its \<open>done\<close> flag. The type of programs,
  \<open>precompiledseccomp.Program\<close>, is declared outside \<open>src/\<close> and is the type
  parameter \<open>'p\<close>; its zero value is the parameter \<open>zero\<close> of \<open>GetPrecompiled\<close>.

  The third field of the state, \<open>registerPrograms_runs\<close>, is not a variable of the
  program. It is the number of times the body of \<open>registerPrograms\<close> has run so far:
  \<open>registerPrograms\<close> itself advances it by one each time it runs, and nothing else
  writes it. Two runs of \<open>registerPrograms\<close> leave the same map as one, so without
  this count the state could not tell them apart.
\<close>

record 'p registry =
  precompiledPrograms :: "(string \<times> 'p) list option"
  registerPrecompiledProgramsOnce :: bool
  registerPrograms_runs :: nat

definition initial_registry :: "'p registry" where
  "initial_registry =
     \<lparr>precompiledPrograms = None, registerPrecompiledProgramsOnce = False,
      registerPrograms_runs = 0\<rparr>"

text \<open>\<open>v, ok := m[k]\<close>: the zero value and \<open>false\<close> for a missing key, also on the \<open>nil\<close> map.\<close>

definition map_index :: "'p \<Rightarrow> (string \<times> 'p) list option \<Rightarrow> string \<Rightarrow> 'p \<times> bool" where
  "map_index zero m k =
     (case m of
        None \<Rightarrow> (zero, False)
      | Some kvs \<Rightarrow> (case map_of kvs k of None \<Rightarrow> (zero, False) | Some p \<Rightarrow> (p, True)))"

text \<open>
  \<open>for name := range m\<close> delivers every key once, in an order that Go leaves to the
  runtime. In the model the runtime's choices are a list of numbers: each picks, among
  the keys not yet delivered, the one to deliver next; when the choices run out the
  remaining keys come in storage order. \<open>visit_order_complete\<close> below shows that every
  order of the keys arises from some choices.
\<close>

function visit_order :: "nat list \<Rightarrow> 'a list \<Rightarrow> 'a list" where
  "visit_order choices [] = []"
| "visit_order [] (k # ks) = k # ks"
| "visit_order (c # choices) (k # ks) =
     (let i = c mod length (k # ks)
      in (k # ks) ! i # visit_order choices (take i (k # ks) @ drop (Suc i) (k # ks)))"
  by pat_completeness auto
termination
  by (relation "measure (\<lambda>(choices, ks). length ks)") auto

definition map_range_keys :: "nat list \<Rightarrow> (string \<times> 'p) list option \<Rightarrow> string list" where
  "map_range_keys choices m =
     (case m of None \<Rightarrow> [] | Some kvs \<Rightarrow> visit_order choices (map fst kvs))"

text \<open>
  \<open>registerPrograms\<close> makes a fresh map, runs the registration statements that the code
  generator writes at the marker comment, and stores the map in \<open>precompiledPrograms\<close>.
  The generated statements are not part of the template: they are the parameter
  \<open>regs\<close>, a list of assignments \<open>programs[name] = p\<close> run in order. Each run is
  counted in \<open>registerPrograms_runs\<close>.
\<close>

definition registerPrograms :: "(string \<times> 'p) list \<Rightarrow> 'p registry \<Rightarrow> 'p registry" where
  "registerPrograms regs s =
     (let programs = foldl (\<lambda>m (name, p). AList.update name p m) [] regs
      in s\<lparr>precompiledPrograms := Some programs,
           registerPrograms_runs := registerPrograms_runs s + 1\<rparr>)"

text \<open>\<open>sync.Once.Do\<close>: runs \<open>f\<close> and sets the flag, unless the flag is set already.\<close>

definition once_Do :: "('p registry \<Rightarrow> 'p registry) \<Rightarrow> 'p registry \<Rightarrow> 'p registry" where
  "once_Do f s =
     (if registerPrecompiledProgramsOnce s then s
      else (f s)\<lparr>registerPrecompiledProgramsOnce := True\<rparr>)"

definition GetPrecompiled ::
  "(string \<times> 'p) list \<Rightarrow> 'p \<Rightarrow> string \<Rightarrow> 'p registry \<Rightarrow> 'p registry \<times> ('p \<times> bool)" where
  "GetPrecompiled regs zero programName s =
     (let s' = once_Do (registerPrograms regs) s
      in (s', map_index zero (precompiledPrograms s') programName))"

text \<open>\<open>sort.Strings\<close> sorts in increasing order of Go's \<open><\<close> on strings: bytewise lexicographic.\<close>

definition sort_Strings :: "string list \<Rightarrow> string list" where
  "sort_Strings names = sort names"

definition ListPrecompiled ::
  "(string \<times> 'p) list \<Rightarrow> nat list \<Rightarrow> 'p registry \<Rightarrow> 'p registry \<times> string list" where
  "ListPrecompiled regs choices s =
     (let s' = once_Do (registerPrograms regs) s;
          programNames =
            foldl (\<lambda>acc name. acc @ [name]) []
              (map_range_keys choices (precompiledPrograms s'))
      in (s', sort_Strings programNames))"

text \<open>
  The package exports nothing else that touches the two variables, so a client of the
  package is a sequence of calls of these two functions; a call of \<open>ListPrecompiled\<close>
  comes with the choices of the runtime for its iteration.
\<close>

datatype call = CallGet string | CallList "nat list"

fun perform :: "(string \<times> 'p) list \<Rightarrow> 'p \<Rightarrow> call \<Rightarrow> 'p registry \<Rightarrow> 'p registry" where
  "perform regs zero (CallGet programName) s = fst (GetPrecompiled regs zero programName s)"
| "perform regs zero (CallList choices) s = fst (ListPrecompiled regs choices s)"

fun run_calls :: "(string \<times> 'p) list \<Rightarrow> 'p \<Rightarrow> call list \<Rightarrow> 'p registry \<Rightarrow> 'p registry" where
  "run_calls regs zero [] s = s"
| "run_calls regs zero (c # cs) s = run_calls regs zero cs (perform regs zero c s)"

text \<open>
  The registry after one run of \<open>registerPrograms\<close> on the registration statements
  \<open>regs\<close>, and no more than one: the map they build, the \<open>Once\<close> set, the count at 1.
\<close>

definition populated :: "(string \<times> 'p) list \<Rightarrow> 'p registry" where
  "populated regs =
     \<lparr>precompiledPrograms = Some (foldl (\<lambda>m (name, p). AList.update name p m) [] regs),
      registerPrecompiledProgramsOnce = True,
      registerPrograms_runs = 1\<rparr>"


section \<open>Value matchers\<close>

text \<open>
  The matcher algebra belongs to package \<open>seccomp\<close>, which is not part of \<open>src/\<close>:
  only its callers are (\<open>seccomp.EqualTo\<close>, \<open>seccomp.AnyValue\<close> in
  \<open>src/runsc/fsgofer/filter/config_cgo.go\<close>). The definitions of this section follow
  the specification, sections 3 and 4.1.
\<close>

text \<open>
  Modelled from the spec: the type \<open>Value\<close> of package \<open>seccomp\<close>, "an unsigned
  64-bit quantity interpreted as two 32-bit halves (low/high) because the underlying
  bytecode machine is 32-bit-word-oriented".
\<close>

type_synonym Value = "64 word"

text \<open>Modelled from the spec: the low 32-bit half of a \<open>Value\<close>.\<close>

definition low :: "Value \<Rightarrow> 32 word" where
  "low x = ucast x"

text \<open>Modelled from the spec: the high 32-bit half of a \<open>Value\<close>.\<close>

definition high :: "Value \<Rightarrow> 32 word" where
  "high x = ucast (drop_bit 32 x)"

text \<open>
  Modelled from the spec: the variants of \<open>ValueMatcher\<close> of package \<open>seccomp\<close>, as
  section 3 lists them; \<open>MaskedEqual\<close> takes the mask first.
\<close>

datatype ValueMatcher =
    AnyValue
  | EqualTo Value
  | NotEqualTo Value
  | GreaterThan Value
  | LessThan Value
  | MaskedEqual Value Value
  | BitsAllowlist Value
  | BitsDenylist Value

text \<open>
  Modelled from the spec: the masked comparison of one 32-bit half, the check that the
  comment in \<open>fuzzFilterOptimizationsResultInConsistentProgram\<close> writes as
  \<open>(A & 0) == 0\<close> for a half whose mask is zero.
\<close>

definition half_masked_equal :: "32 word \<Rightarrow> 32 word \<Rightarrow> 32 word \<Rightarrow> bool" where
  "half_masked_equal m v a = ((a AND m) = (v AND m))"

text \<open>
  Modelled from the spec: \<open>matches\<close>, the predicate of a \<open>ValueMatcher\<close> of package
  \<open>seccomp\<close> on one argument value. The machine sees a value as its two halves, so
  every variant is evaluated on the halves: the high half first, then the low half
  ("compiled comparisons against 64-bit values are a widening of a 32-bit
  compare-pair"; a masked-equal check tests "both 32-bit halves"). The comparisons are
  unsigned. The specification names \<open>BitsAllowlist\<close> and \<open>BitsDenylist\<close> without
  stating their predicates; they are read as "no bit outside the mask is set" and "no
  bit of the mask is set". \<open>matches_contract\<close> below relates every variant to its
  64-bit reading.
\<close>

fun matches :: "ValueMatcher \<Rightarrow> Value \<Rightarrow> bool" where
  "matches AnyValue x = True"
| "matches (EqualTo v) x = (high x = high v \<and> low x = low v)"
| "matches (NotEqualTo v) x = (high x \<noteq> high v \<or> low x \<noteq> low v)"
| "matches (GreaterThan v) x = (high v < high x \<or> (high x = high v \<and> low v < low x))"
| "matches (LessThan v) x = (high x < high v \<or> (high x = high v \<and> low x < low v))"
| "matches (MaskedEqual m v) x =
     (half_masked_equal (high m) (high v) (high x) \<and> half_masked_equal (low m) (low v) (low x))"
| "matches (BitsAllowlist m) x =
     (half_masked_equal (NOT (high m)) 0 (high x) \<and> half_masked_equal (NOT (low m)) 0 (low x))"
| "matches (BitsDenylist m) x =
     (half_masked_equal (high m) 0 (high x) \<and> half_masked_equal (low m) 0 (low x))"


section \<open>The codec of precompiled programs\<close>

text \<open>
  The codec belongs to package \<open>precompiledseccomp\<close>, and the instruction format to
  package \<open>bpf\<close>; neither is part of \<open>src/\<close>. The definitions of this
  section follow the specification, sections 3, 4.5 and 6.
\<close>

type_synonym byte = "8 word"

text \<open>
  Modelled from the spec: the type \<open>Instruction\<close> of package \<open>bpf\<close>,
  "{opcode, jump-true-offset, jump-false-offset, immediate}", a fixed-width record. The
  widths are those of the classic BPF instruction (16, 8, 8 and 32 bits); the
  specification leaves them open.
\<close>

record instruction =
  opcode :: "16 word"
  jump_true :: "8 word"
  jump_false :: "8 word"
  immediate :: "32 word"

text \<open>
  Modelled from the spec: the persisted \<open>Program\<close> of package \<open>precompiledseccomp\<close>,
  "{architecture tag, instruction array, verdict-for-default}". A verdict is a 32-bit
  action value, as the callers pass it (\<open>Action: linux.SECCOMP_RET_ERRNO\<close>).
\<close>

record program =
  architecture :: "32 word"
  instructions :: "instruction list"
  default_verdict :: "32 word"

text \<open>
  \<open>bpf.MaxInstructions\<close>; "currently 4,096" by the comment on
  \<open>countExecutedLinesProgram1\<close> in \<open>src/test/benchmarks/base/syscallbench_test.go\<close>.
\<close>

definition MaxInstructions :: nat where
  "MaxInstructions = 4096"

text \<open>
  Modelled from the spec: the check that "every jump target is in-bounds and
  non-backward", missing with package \<open>bpf\<close>. Which instructions jump, and by which of
  their fields, is the opcode table of the instruction set, which neither the
  specification nor the sources give: it is the parameter \<open>jumps\<close>, the list of the
  relative offsets an instruction can jump by. An offset \<open>d\<close> taken at index \<open>pc\<close>
  leads to \<open>pc + 1 + d\<close>; offsets are unsigned, so no jump goes backward. The check
  walks the instructions \<open>insns\<close> that start at index \<open>pc\<close> of a program of \<open>n\<close>
  instructions.
\<close>

fun jumps_in_bounds ::
    "(instruction \<Rightarrow> nat list) \<Rightarrow> nat \<Rightarrow> nat \<Rightarrow> instruction list \<Rightarrow> bool" where
  "jumps_in_bounds jumps n pc [] = True"
| "jumps_in_bounds jumps n pc (ins # insns) =
     ((\<forall>d \<in> set (jumps ins). pc + 1 + d < n) \<and> jumps_in_bounds jumps n (Suc pc) insns)"

text \<open>
  Modelled from the spec: the invariant of a \<open>Program\<close>,
  "\<open>len(Program) \<le> MaxInstructions\<close> ... and every jump target is in-bounds and
  non-backward", missing with package \<open>bpf\<close>.
\<close>

definition valid_program :: "(instruction \<Rightarrow> nat list) \<Rightarrow> program \<Rightarrow> bool" where
  "valid_program jumps P =
     (length (instructions P) \<le> MaxInstructions
      \<and> jumps_in_bounds jumps (length (instructions P)) 0 (instructions P))"

text \<open>
  Modelled from the spec: the fixed-width fields of the persisted form, missing with
  package \<open>precompiledseccomp\<close>. The byte order is little-endian ("exact byte layout is
  an implementation choice").
\<close>

definition le16 :: "16 word \<Rightarrow> byte list" where
  "le16 w = [ucast w, ucast (drop_bit 8 w)]"

text \<open>Modelled from the spec: a 32-bit field of the persisted form, little-endian.\<close>

definition le32 :: "32 word \<Rightarrow> byte list" where
  "le32 w = [ucast w, ucast (drop_bit 8 w), ucast (drop_bit 16 w), ucast (drop_bit 24 w)]"

text \<open>Modelled from the spec: reading a 16-bit field of the persisted form.\<close>

definition from_le16 :: "byte \<Rightarrow> byte \<Rightarrow> 16 word" where
  "from_le16 b0 b1 = ucast b0 OR push_bit 8 (ucast b1)"

text \<open>Modelled from the spec: reading a 32-bit field of the persisted form.\<close>

definition from_le32 :: "byte \<Rightarrow> byte \<Rightarrow> byte \<Rightarrow> byte \<Rightarrow> 32 word" where
  "from_le32 b0 b1 b2 b3 =
     ucast b0 OR push_bit 8 (ucast b1) OR push_bit 16 (ucast b2) OR push_bit 24 (ucast b3)"

text \<open>
  Modelled from the spec: one record of the "instruction array (fixed-width records)",
  eight bytes, missing with package \<open>precompiledseccomp\<close>.
\<close>

definition encode_instruction :: "instruction \<Rightarrow> byte list" where
  "encode_instruction ins =
     le16 (opcode ins) @ [jump_true ins, jump_false ins] @ le32 (immediate ins)"

text \<open>
  Modelled from the spec: the encoder of package \<open>precompiledseccomp\<close>. "Format fields
  are: architecture tag (fixed-width), instruction count (fixed-width), instruction
  array (fixed-width records), default verdict (fixed-width)", in this order.
\<close>

definition encode :: "program \<Rightarrow> byte list" where
  "encode P =
     le32 (architecture P)
     @ le32 (of_nat (length (instructions P)))
     @ concat (map encode_instruction (instructions P))
     @ le32 (default_verdict P)"

text \<open>
  Modelled from the spec: the ways in which decoding fails ("truncated or invalid
  persisted blobs").
\<close>

datatype codec_error = Truncated | TrailingBytes | TooManyInstructions | JumpOutOfBounds

text \<open>
  Modelled from the spec: reading \<open>n\<close> instruction records, missing with package
  \<open>precompiledseccomp\<close>; the result is the instructions and the bytes after them, or
  \<open>None\<close> when the bytes run out.
\<close>

fun decode_instructions :: "nat \<Rightarrow> byte list \<Rightarrow> (instruction list \<times> byte list) option" where
  "decode_instructions 0 bs = Some ([], bs)"
| "decode_instructions (Suc n) (c0 # c1 # t # f # k0 # k1 # k2 # k3 # bs) =
     (case decode_instructions n bs of
        None \<Rightarrow> None
      | Some (insns, rest) \<Rightarrow>
          Some (\<lparr>opcode = from_le16 c0 c1, jump_true = t, jump_false = f,
                 immediate = from_le32 k0 k1 k2 k3\<rparr> # insns, rest))"
| "decode_instructions (Suc n) _ = None"

text \<open>
  Modelled from the spec: reading the last field, the default verdict; nothing may
  follow it.
\<close>

fun decode_verdict :: "byte list \<Rightarrow> codec_error + 32 word" where
  "decode_verdict [v0, v1, v2, v3] = Inr (from_le32 v0 v1 v2 v3)"
| "decode_verdict (v0 # v1 # v2 # v3 # v4 # _) = Inl TrailingBytes"
| "decode_verdict _ = Inl Truncated"

text \<open>
  Modelled from the spec: the decoder of package \<open>precompiledseccomp\<close>. It reads the
  four fields and, before it returns a program, "must re-validate the Program
  invariants of section 3 (length bound, in-bounds forward-only jumps)"; a blob that is
  truncated, too long or invalid is an error, never a program.
\<close>

fun decode :: "(instruction \<Rightarrow> nat list) \<Rightarrow> byte list \<Rightarrow> codec_error + program" where
  "decode jumps (a0 # a1 # a2 # a3 # n0 # n1 # n2 # n3 # body) =
     (let n = unat (from_le32 n0 n1 n2 n3) in
      if MaxInstructions < n then Inl TooManyInstructions
      else case decode_instructions n body of
        None \<Rightarrow> Inl Truncated
      | Some (insns, rest) \<Rightarrow>
          (case decode_verdict rest of
             Inl e \<Rightarrow> Inl e
           | Inr v \<Rightarrow>
               if jumps_in_bounds jumps n 0 insns
               then Inr \<lparr>architecture = from_le32 a0 a1 a2 a3, instructions = insns,
                        default_verdict = v\<rparr>
               else Inl JumpOutOfBounds))"
| "decode jumps _ = Inl Truncated"


section \<open>A concrete instruction set and program\<close>

text \<open>
  The jumps of classic BPF, for the examples: opcode \<open>0x05\<close> (\<open>JMP|JA\<close>) jumps by its
  immediate, every other opcode of class \<open>JMP\<close> (low three bits \<open>0x05\<close>) by one of its
  two offsets, and no other instruction jumps.
\<close>

definition bpf_jumps :: "instruction \<Rightarrow> nat list" where
  "bpf_jumps ins =
     (if opcode ins = 0x05 then [unat (immediate ins)]
      else if opcode ins AND 0x07 = 0x05 then [unat (jump_true ins), unat (jump_false ins)]
      else [])"

text \<open>
  A filter for \<open>AUDIT_ARCH_X86_64\<close> that loads the syscall number, allows \<open>openat\<close>
  (257) and fails every other syscall with \<open>EPERM\<close>.
\<close>

definition example_program :: program where
  "example_program =
     \<lparr>architecture = 0xC000003E,
      instructions =
        [\<lparr>opcode = 0x20, jump_true = 0, jump_false = 0, immediate = 0\<rparr>,
         \<lparr>opcode = 0x15, jump_true = 0, jump_false = 1, immediate = 257\<rparr>,
         \<lparr>opcode = 0x06, jump_true = 0, jump_false = 0, immediate = 0x7FFF0000\<rparr>,
         \<lparr>opcode = 0x06, jump_true = 0, jump_false = 0, immediate = 0x00050001\<rparr>],
      default_verdict = 0x00050001\<rparr>"

text \<open>Registration statements for the examples: the name \<open>b\<close> is assigned twice.\<close>

definition example_registrations :: "(string \<times> nat) list" where
  "example_registrations = [(''b'', 1), (''a'', 2), (''b'', 3)]"


section \<open>Facts about the registry\<close>

lemma map_of_registrations:
  "map_of (foldl (\<lambda>m (name, p). AList.update name p m) m0 regs) = map_of m0 ++ map_of (rev regs)"
proof (induction regs arbitrary: m0)
  case Nil
  show ?case by simp
next
  case (Cons r regs)
  obtain k v where r: "r = (k, v)" by (cases r)
  have "map_of (foldl (\<lambda>m (name, p). AList.update name p m) m0 (r # regs))
        = map_of (AList.update k v m0) ++ map_of (rev regs)"
    using Cons.IH [of "AList.update k v m0"] by (simp add: r)
  also have "\<dots> = map_of m0 ++ map_of (rev (r # regs))"
    by (simp add: r update_conv' fun_eq_iff map_add_def split: option.splits)
  finally show ?case .
qed

lemma distinct_registrations:
  "distinct (map fst m0) \<Longrightarrow>
   distinct (map fst (foldl (\<lambda>m (name, p). AList.update name p m) m0 regs))"
proof (induction regs arbitrary: m0)
  case Nil
  then show ?case by simp
next
  case (Cons r regs)
  obtain k v where r: "r = (k, v)" by (cases r)
  show ?case using Cons.IH [of "AList.update k v m0"] Cons.prems
    by (simp add: r distinct_update)
qed

lemma keys_registrations:
  "set (map fst (foldl (\<lambda>m (name, p). AList.update name p m) m0 regs))
   = fst ` set m0 \<union> fst ` set regs"
proof (induction regs arbitrary: m0)
  case Nil
  show ?case by simp
next
  case (Cons r regs)
  obtain k v where r: "r = (k, v)" by (cases r)
  show ?case using Cons.IH [of "AList.update k v m0"]
    by (auto simp: r dom_update image_iff)
qed

lemma perform_initial: "perform regs zero c initial_registry = populated regs"
  by (cases c)
     (simp_all add: GetPrecompiled_def ListPrecompiled_def once_Do_def populated_def
        registerPrograms_def initial_registry_def Let_def)

lemma perform_populated: "perform regs zero c (populated regs) = populated regs"
  by (cases c)
     (simp_all add: GetPrecompiled_def ListPrecompiled_def once_Do_def populated_def Let_def)

lemma run_calls_populated: "run_calls regs zero cs (populated regs) = populated regs"
  by (induction cs) (simp_all add: perform_populated)

lemma populated_once: "registerPrecompiledProgramsOnce (populated regs)"
  by (simp add: populated_def)

text \<open>
  What one call does to the count: it runs \<open>registerPrograms\<close> once when it finds the
  \<open>Once\<close> unset, and not at all when it finds it set.
\<close>

lemma perform_runs:
  "registerPrograms_runs (perform regs zero c s)
   = registerPrograms_runs s + (if registerPrecompiledProgramsOnce s then 0 else 1)"
  by (cases c)
     (simp_all add: GetPrecompiled_def ListPrecompiled_def once_Do_def registerPrograms_def
        Let_def)

lemma perform_sets_once: "registerPrecompiledProgramsOnce (perform regs zero c s)"
  by (cases c)
     (simp_all add: GetPrecompiled_def ListPrecompiled_def once_Do_def registerPrograms_def
        Let_def)

lemma foldl_append_names: "foldl (\<lambda>acc name. acc @ [name]) acc0 names = acc0 @ names"
  by (induction names arbitrary: acc0) simp_all

lemma mset_without_nth:
  "i < length ks \<Longrightarrow> add_mset (ks ! i) (mset (take i ks @ drop (Suc i) ks)) = mset ks"
proof -
  assume "i < length ks"
  then have "ks = take i ks @ ks ! i # drop (Suc i) ks"
    by (rule id_take_nth_drop)
  then have "mset ks = mset (take i ks @ ks ! i # drop (Suc i) ks)"
    by simp
  then show ?thesis by simp
qed

text \<open>The iteration delivers every key, as often as the map stores it: once.\<close>

lemma mset_visit_order: "mset (visit_order choices ks) = mset ks"
proof (induction choices ks rule: visit_order.induct)
  case (3 c choices k ks)
  define i where "i = c mod length (k # ks)"
  have i: "i < length (k # ks)"
    by (simp add: i_def)
  have "mset (visit_order choices (take i (k # ks) @ drop (Suc i) (k # ks)))
        = mset (take i (k # ks) @ drop (Suc i) (k # ks))"
    using "3.IH" [of i] by (simp add: i_def)
  then have "mset (visit_order (c # choices) (k # ks))
        = add_mset ((k # ks) ! i) (mset (take i (k # ks) @ drop (Suc i) (k # ks)))"
    by (simp add: i_def Let_def del: take_Suc_Cons drop_Suc_Cons nth_Cons_Suc)
  then show ?case
    using mset_without_nth [OF i] by simp
qed simp_all

text \<open>Every order of the keys is the order of some iteration.\<close>

lemma visit_order_complete:
  "mset names = mset ks \<Longrightarrow> \<exists>choices. visit_order choices ks = names"
proof (induction names arbitrary: ks)
  case Nil
  then show ?case by simp
next
  case (Cons n names)
  then have "n \<in> set ks"
    by (metis list.set_intros(1) set_mset_mset)
  then obtain i where i: "i < length ks" "ks ! i = n"
    by (auto simp: in_set_conv_nth)
  then obtain k ks' where ks: "ks = k # ks'"
    by (cases ks) auto
  have "add_mset n (mset (take i ks @ drop (Suc i) ks)) = mset ks"
    using mset_without_nth [of i ks] i by simp
  also have "mset ks = add_mset n (mset names)"
    using Cons.prems by simp
  finally have "mset names = mset (take i ks @ drop (Suc i) ks)"
    by simp
  then obtain choices where "visit_order choices (take i ks @ drop (Suc i) ks) = names"
    using Cons.IH by blast
  then have "visit_order (i # choices) ks = n # names"
    using i by (simp add: ks Let_def del: take_Suc_Cons drop_Suc_Cons nth_Cons_Suc)
  then show ?case by blast
qed

text \<open>
  Sorting forgets the order in which the names were collected: any two enumerations of
  the same keys give the same list.
\<close>

lemma sort_order_irrelevant:
  "mset names = mset names' \<Longrightarrow> sort_Strings names = sort_Strings names'"
  unfolding sort_Strings_def by (rule properties_for_sort) simp_all

lemma ListPrecompiled_order_irrelevant:
  "snd (ListPrecompiled regs choices s) = snd (ListPrecompiled regs choices' s)"
proof (cases "precompiledPrograms (once_Do (registerPrograms regs) s)")
  case None
  then show ?thesis
    by (simp add: ListPrecompiled_def Let_def map_range_keys_def)
next
  case (Some kvs)
  have "mset (visit_order choices (map fst kvs)) = mset (visit_order choices' (map fst kvs))"
    by (simp add: mset_visit_order)
  then have "sort_Strings (visit_order choices (map fst kvs))
      = sort_Strings (visit_order choices' (map fst kvs))"
    by (rule sort_order_irrelevant)
  then show ?thesis
    by (simp add: ListPrecompiled_def Let_def map_range_keys_def Some foldl_append_names)
qed


lemma once_Do_after_calls:
  "once_Do (registerPrograms regs) (run_calls regs zero calls initial_registry) = populated regs"
proof (cases calls)
  case Nil
  then show ?thesis
    by (simp add: once_Do_def populated_def registerPrograms_def initial_registry_def)
next
  case (Cons c cs)
  then show ?thesis
    by (simp add: perform_initial run_calls_populated once_Do_def populated_once)
qed

lemma populated_programs:
  "precompiledPrograms (populated regs)
   = Some (foldl (\<lambda>m (name, p). AList.update name p m) [] regs)"
  by (simp add: populated_def)

lemma map_of_rev_registered:
  "(map_of (rev regs) name = None) = (name \<notin> fst ` set regs)"
  by (simp add: map_of_eq_None_iff)

lemma strict_string_order:
  "((a :: string) < b) = ((a, b) \<in> lexord {(c, d). (of_char c :: nat) < of_char d})"
  by (simp add: list_less_def less_char_def)


section \<open>The registry is populated once and then only read\<close>

text \<open>
  C8. Start from the initial registry (map \<open>nil\<close>, \<open>Once\<close> unset, no run of
  \<open>registerPrograms\<close> yet) and make any call \<open>c\<close> of \<open>GetPrecompiled\<close> or
  \<open>ListPrecompiled\<close>, then any further calls \<open>cs\<close>, then one more call \<open>c'\<close>. The
  first call runs \<open>registerPrograms\<close>, once, and leaves the populated registry. The
  further calls leave that registry as it is, and so does \<open>c'\<close>: the same map, and no
  further run of \<open>registerPrograms\<close>. So over the whole sequence the body of
  \<open>registerPrograms\<close> has run exactly once, however long the sequence is. After any
  sequence of calls (also the empty one) \<open>GetPrecompiled name\<close> returns the program
  that the last registration statement for \<open>name\<close> stored, with \<open>True\<close>, when there is
  such a statement, and the zero value with \<open>False\<close> when there is none.
\<close>

theorem registry_populated_exactly_once:
  fixes regs :: "(string \<times> 'p) list" and zero :: 'p
  shows "registerPrograms_runs (initial_registry :: 'p registry) = 0
    \<and> perform regs zero c initial_registry = populated regs
    \<and> registerPrograms_runs (perform regs zero c initial_registry) = 1
    \<and> run_calls regs zero cs (perform regs zero c initial_registry) = populated regs
    \<and> perform regs zero c' (run_calls regs zero cs (perform regs zero c initial_registry))
        = run_calls regs zero cs (perform regs zero c initial_registry)
    \<and> registerPrograms_runs (run_calls regs zero (c # cs @ [c']) initial_registry) = 1
    \<and> precompiledPrograms (run_calls regs zero (c # cs @ [c']) initial_registry)
        = precompiledPrograms (perform regs zero c initial_registry)
    \<and> snd (GetPrecompiled regs zero name (run_calls regs zero calls initial_registry))
        = (case map_of (rev regs) name of None \<Rightarrow> (zero, False) | Some p \<Rightarrow> (p, True))
    \<and> snd (snd (GetPrecompiled regs zero name (run_calls regs zero calls initial_registry)))
        = (name \<in> fst ` set regs)"
proof -
  have none: "registerPrograms_runs (initial_registry :: 'p registry) = 0"
    by (simp add: initial_registry_def)
  have first: "perform regs zero c initial_registry = populated regs"
    by (rule perform_initial)
  have first_runs: "registerPrograms_runs (perform regs zero c initial_registry) = 1"
    using perform_runs [of regs zero c initial_registry] by (simp add: initial_registry_def)
  have later: "run_calls regs zero cs (perform regs zero c initial_registry) = populated regs"
    by (simp add: first run_calls_populated)
  have last: "perform regs zero c' (run_calls regs zero cs (perform regs zero c initial_registry))
        = run_calls regs zero cs (perform regs zero c initial_registry)"
    by (simp add: later perform_populated)
  have whole: "run_calls regs zero (c # cs @ [c']) initial_registry = populated regs"
    using run_calls_populated [of regs zero "cs @ [c']"] by (simp add: first)
  have count: "registerPrograms_runs (run_calls regs zero (c # cs @ [c']) initial_registry) = 1"
    unfolding whole by (simp add: populated_def)
  have same: "precompiledPrograms (run_calls regs zero (c # cs @ [c']) initial_registry)
        = precompiledPrograms (perform regs zero c initial_registry)"
    unfolding whole first ..
  have get: "snd (GetPrecompiled regs zero name (run_calls regs zero calls initial_registry))
        = (case map_of (rev regs) name of None \<Rightarrow> (zero, False) | Some p \<Rightarrow> (p, True))"
    by (simp add: GetPrecompiled_def Let_def once_Do_after_calls populated_programs
          map_index_def map_of_registrations)
  have ok: "snd (snd (GetPrecompiled regs zero name (run_calls regs zero calls initial_registry)))
        = (name \<in> fst ` set regs)"
    unfolding get using map_of_rev_registered [of regs name]
    by (cases "map_of (rev regs) name") simp_all
  from none first first_runs later last count same get ok show ?thesis by blast
qed

text \<open>
  With the example registrations, which assign the name \<open>b\<close> twice: after three
  calls \<open>registerPrograms\<close> has run once; \<open>b\<close> is found with the program assigned
  last, and \<open>c\<close>, which no statement registers, is not found.
\<close>

theorem registry_populated_exactly_once_example:
  "registerPrograms_runs
     (run_calls example_registrations 0 [CallList [5], CallGet ''a'', CallGet ''c'']
        initial_registry) = 1
   \<and> snd (GetPrecompiled example_registrations 0 ''b''
         (run_calls example_registrations 0 [CallList [], CallGet ''c''] initial_registry))
       = (3, True)
   \<and> snd (GetPrecompiled example_registrations 0 ''c'' initial_registry) = (0, False)"
proof -
  have count: "registerPrograms_runs
     (run_calls example_registrations 0 [CallList [5], CallGet ''a'', CallGet ''c'']
        initial_registry) = 1"
    using registry_populated_exactly_once
      [where regs = example_registrations and zero = 0 and c = "CallList [5]"
         and cs = "[CallGet ''a'']" and c' = "CallGet ''c''"]
    by (simp del: perform.simps run_calls.simps)
  have found: "snd (GetPrecompiled example_registrations 0 ''b''
         (run_calls example_registrations 0 [CallList [], CallGet ''c''] initial_registry))
       = (3, True)"
    using registry_populated_exactly_once
      [where regs = example_registrations and zero = 0 and name = "''b''"
         and calls = "[CallList [], CallGet ''c'']"]
    by (simp add: example_registrations_def)
  have missing: "snd (GetPrecompiled example_registrations 0 ''c'' initial_registry) = (0, False)"
    using registry_populated_exactly_once
      [where regs = example_registrations and zero = 0 and name = "''c''" and calls = "[]"]
    by (simp add: example_registrations_def)
  from count found missing show ?thesis by blast
qed


section \<open>The listing is sorted and complete\<close>

text \<open>
  C10. After any sequence of calls from the initial registry, and whatever choices the
  runtime makes for the order of the iteration over the map, \<open>ListPrecompiled\<close> returns a list that holds exactly the
  names of the registration statements, each once, in strictly increasing bytewise
  lexicographic order.
\<close>

theorem ListPrecompiled_sorted_complete:
  fixes regs :: "(string \<times> 'p) list" and zero :: 'p
  shows "set (snd (ListPrecompiled regs choices (run_calls regs zero calls initial_registry)))
        = fst ` set regs
    \<and> distinct (snd (ListPrecompiled regs choices (run_calls regs zero calls initial_registry)))
    \<and> sorted (snd (ListPrecompiled regs choices (run_calls regs zero calls initial_registry)))
    \<and> sorted_wrt (\<lambda>a b. (a, b) \<in> lexord {(c, d). (of_char c :: nat) < of_char d})
        (snd (ListPrecompiled regs choices (run_calls regs zero calls initial_registry)))"
proof -
  define kvs where "kvs = foldl (\<lambda>m (name, p :: 'p). AList.update name p m) [] regs"
  define names where
    "names = snd (ListPrecompiled regs choices (run_calls regs zero calls initial_registry))"
  have names: "names = sort (visit_order choices (map fst kvs))"
    by (simp add: names_def kvs_def ListPrecompiled_def Let_def once_Do_after_calls
          populated_programs map_range_keys_def foldl_append_names sort_Strings_def)
  have keys: "set (map fst kvs) = fst ` set regs"
    unfolding kvs_def using keys_registrations [of "[]" regs] by simp
  have dist: "distinct (map fst kvs)"
    unfolding kvs_def by (rule distinct_registrations) simp
  have visited: "mset (visit_order choices (map fst kvs)) = mset (map fst kvs)"
    by (rule mset_visit_order)
  have 1: "set names = fst ` set regs"
    using keys mset_eq_setD [OF visited] by (simp add: names)
  have 2: "distinct names"
    using dist mset_eq_imp_distinct_iff [OF visited] by (simp add: names)
  have 3: "sorted names"
    by (simp add: names)
  have "sorted_wrt (<) names"
    using 2 3 by (simp add: strict_sorted_iff)
  then have 4: "sorted_wrt (\<lambda>a b. (a, b) \<in> lexord {(c, d). (of_char c :: nat) < of_char d}) names"
    unfolding strict_string_order .
  from 1 2 3 4 show ?thesis unfolding names_def by blast
qed

text \<open>
  With the example registrations the listing is \<open>a\<close>, \<open>b\<close>, whether it is the first
  call or a later one.
\<close>

theorem ListPrecompiled_sorted_complete_example:
  "snd (ListPrecompiled example_registrations [1]
         (run_calls example_registrations 0 [CallGet ''b''] initial_registry)) = [''a'', ''b'']
   \<and> snd (ListPrecompiled example_registrations [] initial_registry) = [''a'', ''b'']"
proof -
  have listing: "snd (ListPrecompiled example_registrations choices
         (run_calls example_registrations 0 calls initial_registry)) = [''a'', ''b'']"
    for choices calls
  proof (rule sorted_distinct_set_unique)
    show "sorted (snd (ListPrecompiled example_registrations choices
         (run_calls example_registrations 0 calls initial_registry)))"
      using ListPrecompiled_sorted_complete
        [where regs = example_registrations and zero = 0 and choices = choices and calls = calls]
      by blast
    show "distinct (snd (ListPrecompiled example_registrations choices
         (run_calls example_registrations 0 calls initial_registry)))"
      using ListPrecompiled_sorted_complete
        [where regs = example_registrations and zero = 0 and choices = choices and calls = calls]
      by blast
    show "set (snd (ListPrecompiled example_registrations choices
         (run_calls example_registrations 0 calls initial_registry))) = set [''a'', ''b'']"
      using ListPrecompiled_sorted_complete
        [where regs = example_registrations and zero = 0 and choices = choices and calls = calls]
      by (auto simp: example_registrations_def)
    show "sorted [''a'', ''b'']" by simp
    show "distinct [''a'', ''b'']" by simp
  qed
  from listing [of "[1]" "[CallGet ''b'']"] listing [of "[]" "[]"] show ?thesis by simp
qed


section \<open>Matchers on halves and on whole values\<close>

lemma bit_low: "bit (low x) n = (n < 32 \<and> bit x n)"
  by (auto simp: low_def bit_ucast_iff dest: bit_imp_le_length)

lemma bit_high: "bit (high x) n = (n < 32 \<and> bit x (n + 32))"
  by (auto simp: high_def bit_ucast_iff bit_drop_bit_eq add.commute)

text \<open>A value is its two halves.\<close>

lemma halves_eq_iff: "(x = y) = (high x = high y \<and> low x = low y)"
proof
  assume "high x = high y \<and> low x = low y"
  then have h: "high x = high y" and l: "low x = low y" by simp_all
  show "x = y"
  proof (rule bit_word_eqI)
    fix n :: nat assume n: "n < LENGTH(64)"
    show "bit x n = bit y n"
    proof (cases "n < 32")
      case True
      have "bit (low x) n = bit (low y) n" using l by simp
      then show ?thesis using True by (simp add: bit_low)
    next
      case False
      then have m: "n = (n - 32) + 32" "n - 32 < 32" using n by simp_all
      have "bit (high x) (n - 32) = bit (high y) (n - 32)" using h by simp
      then show ?thesis using m by (simp add: bit_high)
    qed
  qed
qed auto

lemma low_and: "low (x AND y) = low x AND low y"
  by (rule bit_word_eqI) (simp add: bit_low bit_and_iff)

lemma high_and: "high (x AND y) = high x AND high y"
  by (rule bit_word_eqI) (simp add: bit_high bit_and_iff)

lemma low_not: "low (NOT x) = NOT (low x)"
  by (rule bit_word_eqI) (simp add: bit_low bit_not_iff)

lemma high_not: "high (NOT x) = NOT (high x)"
  by (rule bit_word_eqI) (simp add: bit_high bit_not_iff)

lemma low_zero: "low 0 = 0"
  by (simp add: low_def)

lemma high_zero: "high 0 = 0"
  by (simp add: high_def)

lemma masked_equal_halves:
  "((x AND m) = (v AND m)) =
   (half_masked_equal (high m) (high v) (high x) \<and> half_masked_equal (low m) (low v) (low x))"
  by (simp add: halves_eq_iff [of "x AND m"] high_and low_and half_masked_equal_def)

lemma unat_low: "unat (low x) = unat x mod 2 ^ 32"
  by (simp add: low_def unsigned_ucast_eq take_bit_eq_mod)

lemma unat_high: "unat (high x) = unat x div 2 ^ 32"
proof -
  have "unat x < 2 ^ 64"
    using unsigned_less [of x, where 'a = nat] by simp
  then have small: "unat x div 2 ^ 32 < 2 ^ 32"
    by (simp add: less_mult_imp_div_less)
  have "unat (high x) = take_bit 32 (drop_bit 32 (unat x))"
    unfolding high_def unsigned_ucast_eq unat_drop_bit_eq by simp
  also have "\<dots> = unat x div 2 ^ 32"
    using small by (simp add: drop_bit_eq_div take_bit_eq_mod)
  finally show ?thesis .
qed

lemma unat_halves: "unat x = unat (high x) * 2 ^ 32 + unat (low x)"
  by (simp add: unat_low unat_high)

lemma pair_less:
  fixes a b c d n :: nat
  assumes "b < n" "d < n"
  shows "(a * n + b < c * n + d) = (a < c \<or> (a = c \<and> b < d))"
proof (cases a c rule: linorder_cases)
  case less
  then have "Suc a \<le> c" by simp
  then have "Suc a * n \<le> c * n" by (rule mult_le_mono1)
  then show ?thesis using assms less by simp
next
  case equal
  then show ?thesis by simp
next
  case greater
  then have "Suc c \<le> a" by simp
  then have "Suc c * n \<le> a * n" by (rule mult_le_mono1)
  then show ?thesis using assms greater by simp
qed

text \<open>The unsigned order of values is the lexicographic order of (high, low).\<close>

lemma less_halves:
  "(v < x) = (high v < high x \<or> (high v = high x \<and> low v < low x))"
proof -
  have lv: "unat (low v) < 2 ^ 32" and lx: "unat (low x) < 2 ^ 32"
    by (simp_all add: unat_low)
  have "(unat v < unat x) =
        (unat (high v) < unat (high x)
         \<or> (unat (high v) = unat (high x) \<and> unat (low v) < unat (low x)))"
    unfolding unat_halves [of v] unat_halves [of x] using lv lx by (rule pair_less)
  then show ?thesis
    by (simp add: word_less_nat_alt word_unat_eq_iff)
qed

text \<open>
  Every variant, evaluated on the halves, decides what its name says of the whole
  64-bit value; the order is the unsigned one (\<open><\<close> on words).
\<close>

lemma matches_contract:
  "matches AnyValue x"
  "matches (EqualTo v) x = (x = v)"
  "matches (NotEqualTo v) x = (x \<noteq> v)"
  "matches (GreaterThan v) x = (v < x)"
  "matches (LessThan v) x = (x < v)"
  "matches (BitsAllowlist m) x = (x AND NOT m = 0)"
  "matches (BitsDenylist m) x = (x AND m = 0)"
proof -
  show "matches AnyValue x" by simp
  show "matches (EqualTo v) x = (x = v)"
    by (simp add: halves_eq_iff [of x v])
  show "matches (NotEqualTo v) x = (x \<noteq> v)"
    by (simp add: halves_eq_iff [of x v])
  show "matches (GreaterThan v) x = (v < x)"
    by (auto simp: less_halves [of v x])
  show "matches (LessThan v) x = (x < v)"
    by (auto simp: less_halves [of x v])
  show "matches (BitsAllowlist m) x = (x AND NOT m = 0)"
    using masked_equal_halves [of x "NOT m" 0] by (simp add: high_not low_not high_zero low_zero)
  show "matches (BitsDenylist m) x = (x AND m = 0)"
    using masked_equal_halves [of x m 0] by (simp add: high_zero low_zero)
qed


section \<open>Masked equality\<close>

text \<open>
  C5. For every mask \<open>m\<close>, constant \<open>v\<close> and value \<open>x\<close>, the matcher
  \<open>MaskedEqual m v\<close>, which compares the two 32-bit halves under the halves of the
  mask, matches \<open>x\<close> exactly when \<open>x AND m\<close> equals \<open>v AND m\<close> as 64-bit values. In
  particular \<open>MaskedEqual 0xF0 0x30\<close> matches \<open>0x3A\<close> and rejects \<open>0x4A\<close>.
\<close>

theorem MaskedEqual_matches_iff:
  "matches (MaskedEqual m v) x = ((x AND m) = (v AND m))
   \<and> matches (MaskedEqual 0xF0 0x30) 0x3A
   \<and> \<not> matches (MaskedEqual 0xF0 0x30) 0x4A"
proof -
  have general: "matches (MaskedEqual m v) x = ((x AND m) = (v AND m))" for m v x
    by (simp add: masked_equal_halves)
  have "((0x3A :: Value) AND 0xF0) = (0x30 AND 0xF0)"
    by simp
  then have yes: "matches (MaskedEqual 0xF0 0x30) 0x3A"
    using general [of "0xF0" "0x30" "0x3A"] by blast
  have "((0x4A :: Value) AND 0xF0) \<noteq> (0x30 AND 0xF0)"
    by simp
  then have no: "\<not> matches (MaskedEqual 0xF0 0x30) 0x4A"
    using general [of "0xF0" "0x30" "0x4A"] by blast
  from general yes no show ?thesis by blast
qed


section \<open>Fields and records read back\<close>

lemma from_le16_le16: "le16 w = [b0, b1] \<Longrightarrow> from_le16 b0 b1 = w"
proof (rule bit_word_eqI)
  fix n :: nat assume b: "le16 w = [b0, b1]" and n: "n < LENGTH(16)"
  consider "n < 8" | "8 \<le> n" "n < 16"
    using n by fastforce
  then show "bit (from_le16 b0 b1) n = bit w n"
    using b by cases
      (auto simp: from_le16_def le16_def bit_or_iff bit_push_bit_iff bit_ucast_iff bit_drop_bit_eq)
qed

lemma from_le32_le32: "le32 w = [b0, b1, b2, b3] \<Longrightarrow> from_le32 b0 b1 b2 b3 = w"
proof (rule bit_word_eqI)
  fix n :: nat assume b: "le32 w = [b0, b1, b2, b3]" and n: "n < LENGTH(32)"
  consider "n < 8" | "8 \<le> n" "n < 16" | "16 \<le> n" "n < 24" | "24 \<le> n" "n < 32"
    using n by fastforce
  then show "bit (from_le32 b0 b1 b2 b3) n = bit w n"
    using b by cases
      (auto simp: from_le32_def le32_def bit_or_iff bit_push_bit_iff bit_ucast_iff bit_drop_bit_eq)
qed

lemma length_le32: "length (le32 w) = 4"
  by (simp add: le32_def)

lemma length_encode_instruction: "length (encode_instruction ins) = 8"
  by (simp add: encode_instruction_def le16_def le32_def)

lemma length_encode_instructions:
  "length (concat (map encode_instruction insns)) = 8 * length insns"
  by (induction insns) (simp_all add: length_encode_instruction)

lemma length_encode: "length (encode P) = 8 + 8 * length (instructions P) + 4"
  by (simp add: encode_def length_le32 length_encode_instructions)

lemma decode_instruction_encode:
  "decode_instructions (Suc n) (encode_instruction ins @ bs) =
     (case decode_instructions n bs of
        None \<Rightarrow> None
      | Some (insns, rest) \<Rightarrow> Some (ins # insns, rest))"
proof -
  obtain c0 c1 where c: "le16 (opcode ins) = [c0, c1]"
    by (simp add: le16_def)
  obtain k0 k1 k2 k3 where k: "le32 (immediate ins) = [k0, k1, k2, k3]"
    by (simp add: le32_def)
  have eq: "\<lparr>opcode = from_le16 c0 c1, jump_true = jump_true ins, jump_false = jump_false ins,
         immediate = from_le32 k0 k1 k2 k3\<rparr> = ins"
    by (simp add: from_le16_le16 [OF c] from_le32_le32 [OF k])
  show ?thesis
    by (simp add: encode_instruction_def c k eq split: option.split)
qed

lemma decode_instructions_encode:
  "decode_instructions (length insns) (concat (map encode_instruction insns) @ rest)
   = Some (insns, rest)"
  by (induction insns) (simp_all add: decode_instruction_encode)

text \<open>What \<open>decode_instructions\<close> returns as the rest is what it did not read.\<close>

lemma decode_instructions_rest:
  "decode_instructions n bs = Some (insns, rest) \<Longrightarrow> length bs = 8 * n + length rest"
proof (induction n bs arbitrary: insns rest rule: decode_instructions.induct)
  case (2 n c0 c1 t f k0 k1 k2 k3 bs)
  then show ?case by (auto split: option.splits)
qed simp_all

lemma decode_short: "length bs < 8 \<Longrightarrow> decode jumps bs = Inl Truncated"
  by (induction jumps bs rule: decode.induct) simp_all

lemma decode_verdict_short: "length bs < 4 \<Longrightarrow> decode_verdict bs = Inl Truncated"
  by (induction bs rule: decode_verdict.induct) simp_all

lemma decode_verdict_le32: "decode_verdict (le32 w) = Inr w"
proof -
  obtain v0 v1 v2 v3 where v: "le32 w = [v0, v1, v2, v3]"
    by (simp add: le32_def)
  show ?thesis by (simp add: v from_le32_le32 [OF v])
qed

lemma unat_count: "n \<le> MaxInstructions \<Longrightarrow> unat (of_nat n :: 32 word) = n"
  by (simp add: MaxInstructions_def unsigned_of_nat take_bit_eq_mod)

text \<open>Decoding after the two header fields of a program within the length bound.\<close>

lemma decode_header:
  assumes "length (instructions P) \<le> MaxInstructions"
  shows "decode jumps (le32 (architecture P) @ le32 (of_nat (length (instructions P))) @ body) =
     (case decode_instructions (length (instructions P)) body of
        None \<Rightarrow> Inl Truncated
      | Some (insns, rest) \<Rightarrow>
          (case decode_verdict rest of
             Inl e \<Rightarrow> Inl e
           | Inr v \<Rightarrow>
               if jumps_in_bounds jumps (length (instructions P)) 0 insns
               then Inr \<lparr>architecture = architecture P, instructions = insns, default_verdict = v\<rparr>
               else Inl JumpOutOfBounds))"
proof -
  obtain a0 a1 a2 a3 where a: "le32 (architecture P) = [a0, a1, a2, a3]"
    by (simp add: le32_def)
  obtain n0 n1 n2 n3 where n: "le32 (of_nat (length (instructions P))) = [n0, n1, n2, n3]"
    by (simp add: le32_def)
  show ?thesis
    using assms
    by (simp add: a n from_le32_le32 [OF a] from_le32_le32 [OF n] unat_count Let_def
          split: option.split sum.split)
qed

lemma example_program_valid: "valid_program bpf_jumps example_program"
  by (simp add: valid_program_def example_program_def bpf_jumps_def MaxInstructions_def)


section \<open>The codec loses nothing and rejects truncated input\<close>

text \<open>
  C6. Let \<open>P\<close> satisfy the program invariants: at most \<open>MaxInstructions\<close> instructions,
  every jump in bounds. Then decoding the encoding of \<open>P\<close> returns \<open>P\<close> itself, with
  its architecture tag, its instructions and its default verdict; and decoding any
  proper prefix of the encoding, so also the encoding without its last byte, fails
  with the error \<open>Truncated\<close>. This holds whatever the opcode table \<open>jumps\<close> is.
\<close>

theorem codec_round_trip:
  "valid_program jumps P \<Longrightarrow>
     decode jumps (encode P) = Inr P
     \<and> decode jumps (butlast (encode P)) = Inl Truncated
     \<and> (\<forall>k < length (encode P). decode jumps (take k (encode P)) = Inl Truncated)"
proof -
  assume valid: "valid_program jumps P"
  then have len: "length (instructions P) \<le> MaxInstructions"
    and jumps: "jumps_in_bounds jumps (length (instructions P)) 0 (instructions P)"
    by (simp_all add: valid_program_def)
  have whole: "decode jumps (encode P) = Inr P"
    unfolding encode_def
    by (simp add: decode_header [OF len] decode_instructions_encode decode_verdict_le32 jumps)
  have prefix: "decode jumps (take k (encode P)) = Inl Truncated" if k: "k < length (encode P)" for k
  proof -
    define body where
      "body = concat (map encode_instruction (instructions P)) @ le32 (default_verdict P)"
    have lbody: "length body = 8 * length (instructions P) + 4"
      by (simp add: body_def length_encode_instructions length_le32)
    show ?thesis
    proof (cases "k < 8")
      case True
      then show ?thesis by (simp add: decode_short)
    next
      case False
      then have "take k (encode P)
          = le32 (architecture P) @ le32 (of_nat (length (instructions P))) @ take (k - 8) body"
        by (simp add: encode_def body_def length_le32)
      moreover have "decode_instructions (length (instructions P)) (take (k - 8) body) = None
        \<or> (\<exists>insns rest. decode_instructions (length (instructions P)) (take (k - 8) body)
              = Some (insns, rest) \<and> length rest < 4)"
      proof (cases "decode_instructions (length (instructions P)) (take (k - 8) body)")
        case None
        then show ?thesis by simp
      next
        case (Some r)
        obtain insns rest where r: "r = (insns, rest)" by (cases r)
        have "decode_instructions (length (instructions P)) (take (k - 8) body)
              = Some (insns, rest)"
          using Some r by simp
        then have "length (take (k - 8) body) = 8 * length (instructions P) + length rest"
          by (rule decode_instructions_rest)
        then have "length rest < 4"
          using k False lbody by (simp add: length_encode)
        then show ?thesis using Some r by simp
      qed
      ultimately show ?thesis
        by (auto simp: decode_header [OF len] decode_verdict_short)
    qed
  qed
  have "butlast (encode P) = take (length (encode P) - 1) (encode P)"
    by (rule butlast_conv_take)
  moreover have "length (encode P) - 1 < length (encode P)"
    by (simp add: length_encode)
  ultimately have last: "decode jumps (butlast (encode P)) = Inl Truncated"
    using prefix by simp
  from whole last prefix show ?thesis by blast
qed

text \<open>
  The example program is valid for the jumps of classic BPF: it is read back from its
  44 bytes, and not from the first 43 or the first 20 of them.
\<close>

theorem codec_round_trip_example:
  "valid_program bpf_jumps example_program
   \<and> decode bpf_jumps (encode example_program) = Inr example_program
   \<and> decode bpf_jumps (butlast (encode example_program)) = Inl Truncated
   \<and> length (encode example_program) = 44
   \<and> decode bpf_jumps (take 20 (encode example_program)) = Inl Truncated"
proof -
  have len: "length (encode example_program) = 44"
    by (simp add: length_encode example_program_def)
  have "(20 :: nat) < length (encode example_program)"
    by (simp add: len)
  with codec_round_trip [OF example_program_valid] example_program_valid len
  show ?thesis by blast
qed


end
